theory Spec2Isabelle
  imports Main
begin

section \<open>The bucket replicator of \<^verbatim>\<open>s3_sync.py\<close>\<close>

text \<open>
  The script replicates every object of each configured source bucket into the
  destination buckets of that entry. The class \<^verbatim>\<open>S3BucketSync\<close> is modelled method
  by method. Everything the class does to the outside goes through three operations of
  the boto3 client (\<^verbatim>\<open>head_bucket\<close>, the \<^verbatim>\<open>list_objects_v2\<close> paginator and
  \<^verbatim>\<open>copy_object\<close>); the storage service behind them is an arbitrary state machine over
  a type \<open>'w\<close>, so that one call may answer differently from the next.

  Not modelled, because no result of a method depends on them: the log lines, the
  progress bar and the 10 ms pause after each copy. Exceptions are the subclasses of
  Python's \<^verbatim>\<open>Exception\<close>; \<^verbatim>\<open>KeyboardInterrupt\<close>, which the interpreter raises on
  a signal at an arbitrary point, is outside the model.
\<close>

subsection \<open>Exceptions\<close>

text \<open>
  \<^verbatim>\<open>ClientError\<close> carries the error code of the service's answer
  (\<^verbatim>\<open>e.response['Error']['Code']\<close>); \<^verbatim>\<open>KeyError\<close> is raised by a dictionary lookup
  of the script itself; \<open>OtherException\<close> is any other subclass of \<^verbatim>\<open>Exception\<close>
  (a connection failure, a parameter validation error, ...), named by its class.
\<close>

datatype exc =
  ClientError string
| KeyError string
| OtherException string

subsection \<open>Data\<close>

text \<open>
  An entry of \<^verbatim>\<open>Contents\<close> in a listing page, as the service returns it: the key, which
  every entry has (\<^verbatim>\<open>obj['Key']\<close>), and metadata that the script ignores.
\<close>

record s3_object =
  Key :: string
  ETag :: string
  Size :: int

text \<open>A page of the paginator is a dictionary that may or may not have \<^verbatim>\<open>'Contents'\<close>.\<close>

record page =
  Contents :: "s3_object list option"

text \<open>
  The arguments of one \<^verbatim>\<open>copy_object\<close> call:
  \<^verbatim>\<open>CopySource={'Bucket': .., 'Key': ..}, Bucket=.., Key=..\<close>.
\<close>

record copy_request =
  CopySource_Bucket :: string
  CopySource_Key :: string
  req_Bucket :: string
  req_Key :: string

text \<open>
  One entry of the \<^verbatim>\<open>buckets\<close> list of the configuration file: a dictionary read with
  \<^verbatim>\<open>config['source_bucket']\<close> and \<^verbatim>\<open>config['destination_buckets']\<close>; either key may be
  absent (\<open>None\<close>). A value that is there has the type the configuration format gives it:
  a bucket name, and a list of bucket names.
\<close>

record config =
  cfg_source_bucket :: "string option"
  cfg_destination_buckets :: "string list option"

text \<open>
  The boto3 client. Each operation takes the state of the service and returns its answer,
  an exception (\<open>Inl\<close>) or a result (\<open>Inr\<close>), with the state after the call. The
  paginator's answer is the list of all pages it yields; an exception while paging
  discards the pages read so far, as the script does.
\<close>

record 'w s3_client =
  api_head_bucket :: "string \<Rightarrow> 'w \<Rightarrow> (exc + unit) \<times> 'w"
  api_paginate :: "string \<Rightarrow> 'w \<Rightarrow> (exc + page list) \<times> 'w"
  api_copy_object :: "copy_request \<Rightarrow> 'w \<Rightarrow> (exc + unit) \<times> 'w"

text \<open>The calls made on the client, in order, each with its answer.\<close>

datatype event =
  EvHead string "exc + unit"
| EvList string "exc + page list"
| EvCopy copy_request "exc + unit"

text \<open>
  The fields of \<^verbatim>\<open>S3BucketSync\<close> that change during a run, with the state of the storage
  service and the record of the calls made so far. The field \<^verbatim>\<open>s3_client\<close> is set once,
  by \<^verbatim>\<open>_initialize_s3_client\<close>, before any method uses it: the methods below take the
  client as their first argument. \<open>init\<close> is \<^verbatim>\<open>__init__\<close>.
\<close>

record 'w state =
  bucket_configs :: "config list"
  total_files_copied :: int
  total_files_failed :: int
  world :: 'w
  calls :: "event list"

definition init :: "'w \<Rightarrow> 'w state" where
  "init w = \<lparr>bucket_configs = [], total_files_copied = 0, total_files_failed = 0,
             world = w, calls = []\<rparr>"

subsection \<open>Calls on the client\<close>

definition head_bucket :: "'w s3_client \<Rightarrow> string \<Rightarrow> 'w state \<Rightarrow> (exc + unit) \<times> 'w state" where
  "head_bucket cl b s =
     (case api_head_bucket cl b (world s) of
        (r, w') \<Rightarrow> (r, s\<lparr>world := w', calls := calls s @ [EvHead b r]\<rparr>))"

definition paginate :: "'w s3_client \<Rightarrow> string \<Rightarrow> 'w state \<Rightarrow> (exc + page list) \<times> 'w state" where
  "paginate cl b s =
     (case api_paginate cl b (world s) of
        (r, w') \<Rightarrow> (r, s\<lparr>world := w', calls := calls s @ [EvList b r]\<rparr>))"

definition client_copy_object ::
    "'w s3_client \<Rightarrow> copy_request \<Rightarrow> 'w state \<Rightarrow> (exc + unit) \<times> 'w state" where
  "client_copy_object cl req s =
     (case api_copy_object cl req (world s) of
        (r, w') \<Rightarrow> (r, s\<lparr>world := w', calls := calls s @ [EvCopy req r]\<rparr>))"

subsection \<open>\<^verbatim>\<open>_validate_bucket_exists\<close>\<close>

text \<open>Only \<^verbatim>\<open>ClientError\<close> is caught; any other exception leaves the method.\<close>

definition validate_bucket_exists ::
    "'w s3_client \<Rightarrow> string \<Rightarrow> 'w state \<Rightarrow> (exc + bool) \<times> 'w state" where
  "validate_bucket_exists cl bucket_name s =
     (case head_bucket cl bucket_name s of
        (Inr _, s') \<Rightarrow> (Inr True, s')
      | (Inl (ClientError error_code), s') \<Rightarrow> (Inr False, s')
      | (Inl e, s') \<Rightarrow> (Inl e, s'))"

subsection \<open>\<^verbatim>\<open>_list_objects\<close>\<close>

text \<open>The loop over the pages: \<^verbatim>\<open>objects.extend(page['Contents'])\<close> where the key is there.\<close>

fun extend_pages :: "s3_object list \<Rightarrow> page list \<Rightarrow> s3_object list" where
  "extend_pages objects [] = objects"
| "extend_pages objects (p # ps) =
     extend_pages (case Contents p of Some cs \<Rightarrow> objects @ cs | None \<Rightarrow> objects) ps"

definition list_objects ::
    "'w s3_client \<Rightarrow> string \<Rightarrow> 'w state \<Rightarrow> (exc + s3_object list) \<times> 'w state" where
  "list_objects cl bucket_name s =
     (case paginate cl bucket_name s of
        (Inr pages, s') \<Rightarrow> (Inr (extend_pages [] pages), s')
      | (Inl (ClientError error_code), s') \<Rightarrow> (Inr [], s')
      | (Inl e, s') \<Rightarrow> (Inl e, s'))"

subsection \<open>\<^verbatim>\<open>_copy_object\<close>\<close>

text \<open>Both handlers return \<^verbatim>\<open>False\<close>: no exception leaves the method.\<close>

definition copy_object ::
    "'w s3_client \<Rightarrow> string \<Rightarrow> string \<Rightarrow> string \<Rightarrow> 'w state \<Rightarrow> bool \<times> 'w state" where
  "copy_object cl source_bucket dest_bucket obj_key s =
     (case client_copy_object cl
             \<lparr>CopySource_Bucket = source_bucket, CopySource_Key = obj_key,
              req_Bucket = dest_bucket, req_Key = obj_key\<rparr> s of
        (Inr _, s') \<Rightarrow> (True, s')
      | (Inl (ClientError error_code), s') \<Rightarrow> (False, s')
      | (Inl e, s') \<Rightarrow> (False, s'))"

subsection \<open>\<^verbatim>\<open>_copy_objects_to_destinations\<close>\<close>

text \<open>The body of the inner loop: one copy, then one of the two counters.\<close>

definition copy_pair :: "'w s3_client \<Rightarrow> string \<Rightarrow> string \<Rightarrow> string \<Rightarrow> 'w state \<Rightarrow> 'w state" where
  "copy_pair cl source_bucket obj_key dest_bucket s =
     (case copy_object cl source_bucket dest_bucket obj_key s of
        (True, s') \<Rightarrow> s'\<lparr>total_files_copied := total_files_copied s' + 1\<rparr>
      | (False, s') \<Rightarrow> s'\<lparr>total_files_failed := total_files_failed s' + 1\<rparr>)"

text \<open>\<^verbatim>\<open>for dest_bucket in dest_buckets\<close>\<close>

fun copy_to_each :: "'w s3_client \<Rightarrow> string \<Rightarrow> string \<Rightarrow> string list \<Rightarrow> 'w state \<Rightarrow> 'w state" where
  "copy_to_each cl source_bucket obj_key [] s = s"
| "copy_to_each cl source_bucket obj_key (dest_bucket # rest) s =
     copy_to_each cl source_bucket obj_key rest (copy_pair cl source_bucket obj_key dest_bucket s)"

text \<open>\<^verbatim>\<open>for obj in objects\<close>\<close>

fun copy_all ::
    "'w s3_client \<Rightarrow> string \<Rightarrow> s3_object list \<Rightarrow> string list \<Rightarrow> 'w state \<Rightarrow> 'w state" where
  "copy_all cl source_bucket [] dest_buckets s = s"
| "copy_all cl source_bucket (obj # rest) dest_buckets s =
     copy_all cl source_bucket rest dest_buckets
       (copy_to_each cl source_bucket (Key obj) dest_buckets s)"

definition copy_objects_to_destinations ::
    "'w s3_client \<Rightarrow> string \<Rightarrow> s3_object list \<Rightarrow> string list \<Rightarrow> 'w state \<Rightarrow> 'w state" where
  "copy_objects_to_destinations cl source_bucket objects dest_buckets s =
     (let total_operations = length objects * length dest_buckets
      in if total_operations = 0 then s
         else copy_all cl source_bucket objects dest_buckets s)"

subsection \<open>\<^verbatim>\<open>_process_bucket_config\<close>\<close>

text \<open>
  The loop that validates the destinations, appending the accepted ones to
  \<^verbatim>\<open>valid_dest_buckets\<close>.
\<close>

fun validate_destinations ::
    "'w s3_client \<Rightarrow> string list \<Rightarrow> string list \<Rightarrow> 'w state \<Rightarrow> (exc + string list) \<times> 'w state"
where
  "validate_destinations cl [] valid_dest_buckets s = (Inr valid_dest_buckets, s)"
| "validate_destinations cl (dest_bucket # rest) valid_dest_buckets s =
     (case validate_bucket_exists cl dest_bucket s of
        (Inl e, s') \<Rightarrow> (Inl e, s')
      | (Inr True, s') \<Rightarrow> validate_destinations cl rest (valid_dest_buckets @ [dest_bucket]) s'
      | (Inr False, s') \<Rightarrow> validate_destinations cl rest valid_dest_buckets s')"

definition process_bucket_config ::
    "'w s3_client \<Rightarrow> config \<Rightarrow> 'w state \<Rightarrow> (exc + unit) \<times> 'w state" where
  "process_bucket_config cl cfg s =
     (case cfg_source_bucket cfg of
        None \<Rightarrow> (Inl (KeyError ''source_bucket''), s)
      | Some source_bucket \<Rightarrow>
     (case cfg_destination_buckets cfg of
        None \<Rightarrow> (Inl (KeyError ''destination_buckets''), s)
      | Some dest_buckets \<Rightarrow>
     (case validate_bucket_exists cl source_bucket s of
        (Inl e, s1) \<Rightarrow> (Inl e, s1)
      | (Inr False, s1) \<Rightarrow> (Inr (), s1)
      | (Inr True, s1) \<Rightarrow>
     (case validate_destinations cl dest_buckets [] s1 of
        (Inl e, s2) \<Rightarrow> (Inl e, s2)
      | (Inr valid_dest_buckets, s2) \<Rightarrow>
          if valid_dest_buckets = [] then (Inr (), s2)
          else
     (case list_objects cl source_bucket s2 of
        (Inl e, s3) \<Rightarrow> (Inl e, s3)
      | (Inr objects, s3) \<Rightarrow>
          if objects = [] then (Inr (), s3)
          else (Inr (), copy_objects_to_destinations cl source_bucket objects
                         valid_dest_buckets s3))))))"

subsection \<open>\<^verbatim>\<open>sync_buckets\<close> and \<^verbatim>\<open>main\<close>\<close>

text \<open>
  The loop over \<^verbatim>\<open>self.bucket_configs\<close>: the body is a \<^verbatim>\<open>try\<close> whose handler for
  \<^verbatim>\<open>Exception\<close> logs and continues.
\<close>

fun process_all :: "'w s3_client \<Rightarrow> config list \<Rightarrow> 'w state \<Rightarrow> 'w state" where
  "process_all cl [] s = s"
| "process_all cl (cfg # rest) s =
     (case process_bucket_config cl cfg s of
        (Inr _, s') \<Rightarrow> process_all cl rest s'
      | (Inl e, s') \<Rightarrow> process_all cl rest s')"

text \<open>
  What \<^verbatim>\<open>_initialize_s3_client\<close> meets: whether the session finds credentials (or raises),
  and the client that \<^verbatim>\<open>boto3.client('s3')\<close> builds (or the exception it raises).
\<close>

record 'w boto3 =
  get_credentials :: "exc + bool"
  client :: "exc + 'w s3_client"

text \<open>\<open>Inl n\<close> is \<^verbatim>\<open>sys.exit(n)\<close>.\<close>

definition initialize_s3_client :: "'w boto3 \<Rightarrow> nat + 'w s3_client" where
  "initialize_s3_client boto =
     (case get_credentials boto of
        Inl e \<Rightarrow> Inl 1
      | Inr False \<Rightarrow> Inl 1
      | Inr True \<Rightarrow> (case client boto of Inl e \<Rightarrow> Inl 1 | Inr cl \<Rightarrow> Inr cl))"

text \<open>
  What \<^verbatim>\<open>_load_config\<close> meets: whether the file exists, and what reading and parsing it
  gives: an exception, a document without the key \<^verbatim>\<open>buckets\<close> (\<open>Inr None\<close>), or the
  list under that key.
\<close>

record config_file =
  path_exists :: bool
  safe_load :: "exc + config list option"

definition load_config :: "config_file \<Rightarrow> 'w state \<Rightarrow> nat + 'w state" where
  "load_config cfile s =
     (if \<not> path_exists cfile then Inl 1
      else case safe_load cfile of
             Inl e \<Rightarrow> Inl 1
           | Inr None \<Rightarrow> Inl 1
           | Inr (Some buckets) \<Rightarrow> Inr (s\<lparr>bucket_configs := buckets\<rparr>))"

text \<open>
  \<^verbatim>\<open>sync_buckets\<close> returns the exit status it asks for, if any (\<open>Some n\<close> is
  \<^verbatim>\<open>sys.exit(n)\<close>, \<open>None\<close> a normal return), with the final state.
\<close>

definition sync_buckets ::
    "'w boto3 \<Rightarrow> config_file \<Rightarrow> 'w state \<Rightarrow> nat option \<times> 'w state" where
  "sync_buckets boto cfile s =
     (case initialize_s3_client boto of
        Inl n \<Rightarrow> (Some n, s)
      | Inr cl \<Rightarrow>
     (case load_config cfile s of
        Inl n \<Rightarrow> (Some n, s)
      | Inr s1 \<Rightarrow>
          let s2 = process_all cl (bucket_configs s1) s1
          in if total_files_failed s2 > 0 then (Some 1, s2) else (None, s2)))"

text \<open>
  \<^verbatim>\<open>main\<close>: a fresh \<^verbatim>\<open>S3BucketSync()\<close>, then \<^verbatim>\<open>sync_buckets\<close>. \<^verbatim>\<open>SystemExit\<close> is not an
  \<^verbatim>\<open>Exception\<close>, so neither handler of \<^verbatim>\<open>main\<close> changes the status; a normal return
  ends the process with status 0.
\<close>

definition main :: "'w boto3 \<Rightarrow> config_file \<Rightarrow> 'w \<Rightarrow> nat \<times> 'w state" where
  "main boto cfile w =
     (case sync_buckets boto cfile (init w) of
        (Some n, s) \<Rightarrow> (n, s)
      | (None, s) \<Rightarrow> (0, s))"

section \<open>Reading the record of calls\<close>

text \<open>
  A copy attempt is one \<^verbatim>\<open>copy_object\<close> call: its request, and whether it returned
  (\<open>True\<close>) or raised (\<open>False\<close>).
\<close>

fun attempt_of :: "event \<Rightarrow> (copy_request \<times> bool) list" where
  "attempt_of (EvCopy req r) = [(req, \<not> isl r)]"
| "attempt_of (EvHead b r) = []"
| "attempt_of (EvList b r) = []"

definition attempts :: "event list \<Rightarrow> (copy_request \<times> bool) list" where
  "attempts t = concat (map attempt_of t)"

text \<open>A bucket check is one \<^verbatim>\<open>head_bucket\<close> call: the bucket, and whether the call returned.\<close>

fun check_of :: "event \<Rightarrow> (string \<times> bool) list" where
  "check_of (EvHead b r) = [(b, \<not> isl r)]"
| "check_of (EvList b r) = []"
| "check_of (EvCopy req r) = []"

definition checks :: "event list \<Rightarrow> (string \<times> bool) list" where
  "checks t = concat (map check_of t)"

text \<open>The objects that the listings which returned have read, each with its bucket.\<close>

fun listing_of :: "event \<Rightarrow> (string \<times> s3_object) list" where
  "listing_of (EvList b (Inr pages)) = map (Pair b) (extend_pages [] pages)"
| "listing_of (EvList b (Inl e)) = []"
| "listing_of (EvHead b r) = []"
| "listing_of (EvCopy req r) = []"

definition listed :: "event list \<Rightarrow> (string \<times> s3_object) list" where
  "listed t = concat (map listing_of t)"

text \<open>The calls made between an earlier state \<open>s\<close> and a later state \<open>s'\<close>.\<close>

definition since :: "'w state \<Rightarrow> 'w state \<Rightarrow> event list" where
  "since s s' = drop (length (calls s)) (calls s')"

text \<open>The request that copies key \<open>obj_key\<close> of the source bucket to a destination bucket.\<close>

definition pair_request :: "string \<Rightarrow> string \<Rightarrow> string \<Rightarrow> copy_request" where
  "pair_request source_bucket obj_key dest_bucket =
     \<lparr>CopySource_Bucket = source_bucket, CopySource_Key = obj_key,
      req_Bucket = dest_bucket, req_Key = obj_key\<rparr>"

text \<open>
  \<open>extends s s'\<close>: the record of \<open>s'\<close> is the record of \<open>s\<close> with more calls after it, and
  the counters have grown by the attempts among them, the copied counter by those that
  returned and the failed counter by those that raised.
\<close>

definition extends :: "'w state \<Rightarrow> 'w state \<Rightarrow> bool" where
  "extends s s' \<longleftrightarrow>
     calls s' = calls s @ since s s' \<and>
     total_files_copied s' = total_files_copied s + int (length (filter snd (attempts (since s s')))) \<and>
     total_files_failed s' =
       total_files_failed s + int (length (filter (\<lambda>a. \<not> snd a) (attempts (since s s'))))"

definition counters_le :: "'w state \<Rightarrow> 'w state \<Rightarrow> bool" where
  "counters_le s s' \<longleftrightarrow>
     total_files_copied s \<le> total_files_copied s' \<and>
     total_files_failed s \<le> total_files_failed s'"

text \<open>
  \<open>read_from t req\<close>: the source key of the request is the key of an object that a listing
  of the request's source bucket returned in \<open>t\<close>. \<open>faithful t\<close>: every attempt in \<open>t\<close>
  writes the key it reads, and that key was read from the source bucket.
\<close>

definition read_from :: "event list \<Rightarrow> copy_request \<Rightarrow> bool" where
  "read_from t req \<longleftrightarrow>
     (CopySource_Bucket req, CopySource_Key req) \<in> set (map (\<lambda>(b, obj). (b, Key obj)) (listed t))"

definition faithful :: "event list \<Rightarrow> bool" where
  "faithful t \<longleftrightarrow>
     (\<forall>a \<in> set (attempts t).
        req_Key (fst a) = CopySource_Key (fst a) \<and> read_from t (fst a))"

section \<open>An example service\<close>

text \<open>
  A storage service for the concrete runs below. Its state counts the calls answered.
  Bucket \<open>A\<close> does not exist (404) and the check of bucket \<open>T\<close> meets a connection
  failure; every other bucket is there. Listing \<open>L\<close> is denied, listing \<open>N\<close> times out,
  and every other bucket lists the objects \<open>x\<close> and \<open>y\<close> over three pages, the second
  without \<^verbatim>\<open>Contents\<close>. Copying \<open>y\<close> into \<open>E\<close> fails; every other copy succeeds.
\<close>

definition obj_x :: s3_object where
  "obj_x = \<lparr>Key = ''x'', ETag = ''a1'', Size = 3\<rparr>"

definition obj_y :: s3_object where
  "obj_y = \<lparr>Key = ''y'', ETag = ''b2'', Size = 5\<rparr>"

definition service :: "nat s3_client" where
  "service =
     \<lparr>api_head_bucket = (\<lambda>b w.
        (if b = ''A'' then Inl (ClientError ''404'')
         else if b = ''T'' then Inl (OtherException ''EndpointConnectionError'')
         else Inr (), Suc w)),
      api_paginate = (\<lambda>b w.
        (if b = ''L'' then Inl (ClientError ''AccessDenied'')
         else if b = ''N'' then Inl (OtherException ''ReadTimeoutError'')
         else Inr [\<lparr>Contents = Some [obj_x]\<rparr>, \<lparr>Contents = None\<rparr>, \<lparr>Contents = Some [obj_y]\<rparr>],
         Suc w)),
      api_copy_object = (\<lambda>req w.
        (if req_Bucket req = ''E'' \<and> req_Key req = ''y'' then Inl (ClientError ''InternalError'')
         else Inr (), Suc w))\<rparr>"

text \<open>Credentials are found and the client is \<open>service\<close>; the file holds the given plan.\<close>

definition boto_ok :: "nat boto3" where
  "boto_ok = \<lparr>get_credentials = Inr True, client = Inr service\<rparr>"

definition file_of :: "config list \<Rightarrow> config_file" where
  "file_of buckets = \<lparr>path_exists = True, safe_load = Inr (Some buckets)\<rparr>"

definition entry :: "string \<Rightarrow> string list \<Rightarrow> config" where
  "entry src dests = \<lparr>cfg_source_bucket = Some src, cfg_destination_buckets = Some dests\<rparr>"

definition plan_mixed :: "config list" where
  "plan_mixed = [entry ''S'' [''D'', ''E'']]"

definition plan_clean :: "config list" where
  "plan_clean = [entry ''S'' [''D'']]"

definition plan_outage :: "config list" where
  "plan_outage = [entry ''T'' [''D''], entry ''S'' [''D'']]"

definition plan_no_source :: "config list" where
  "plan_no_source =
     [\<lparr>cfg_source_bucket = None, cfg_destination_buckets = Some [''D'']\<rparr>, entry ''S'' [''D'']]"

section \<open>Lemmas on the record of calls\<close>

lemma attempts_append [simp]: "attempts (t @ u) = attempts t @ attempts u"
  by (simp add: attempts_def)

lemma attempts_simps [simp]:
  "attempts [] = []"
  "attempts (EvCopy req r # t) = (req, \<not> isl r) # attempts t"
  "attempts (EvHead b r1 # t) = attempts t"
  "attempts (EvList b r2 # t) = attempts t"
  by (simp_all add: attempts_def)

lemma since_append: "calls s' = calls s @ t \<Longrightarrow> since s s' = t"
  by (simp add: since_def)

lemma copy_pair_calls:
  "calls (copy_pair cl src k d s) =
     calls s @ [EvCopy (pair_request src k d) (fst (api_copy_object cl (pair_request src k d) (world s)))]"
  by (simp add: copy_pair_def copy_object_def client_copy_object_def pair_request_def
      split: prod.splits sum.splits exc.splits bool.splits)

lemma copy_pair_counters:
  "total_files_copied (copy_pair cl src k d s) =
     total_files_copied s + (if isl (fst (api_copy_object cl (pair_request src k d) (world s))) then 0 else 1)"
  "total_files_failed (copy_pair cl src k d s) =
     total_files_failed s + (if isl (fst (api_copy_object cl (pair_request src k d) (world s))) then 1 else 0)"
  by (auto simp add: copy_pair_def copy_object_def client_copy_object_def pair_request_def
      split: prod.splits sum.splits exc.splits bool.splits)

lemma extends_refl [simp]: "extends s s"
  by (simp add: extends_def since_def)

lemma extends_trans: "extends s s' \<Longrightarrow> extends s' s'' \<Longrightarrow> extends s s''"
proof -
  assume a: "extends s s'" and b: "extends s' s''"
  have c: "calls s'' = calls s @ (since s s' @ since s' s'')"
    using a b by (simp add: extends_def)
  have "since s s'' = since s s' @ since s' s''"
    by (rule since_append [OF c])
  with a b c show ?thesis
    by (simp add: extends_def)
qed

lemma extendsI:
  "calls s' = calls s @ t \<Longrightarrow>
   total_files_copied s' = total_files_copied s + int (length (filter snd (attempts t))) \<Longrightarrow>
   total_files_failed s' = total_files_failed s + int (length (filter (\<lambda>a. \<not> snd a) (attempts t))) \<Longrightarrow>
   extends s s'"
  by (simp add: extends_def since_def)

lemma since_trans:
  "extends s s' \<Longrightarrow> extends s' s'' \<Longrightarrow> since s s'' = since s s' @ since s' s''"
  by (rule since_append) (simp add: extends_def)

lemma extends_copy_pair: "extends s (copy_pair cl src k d s)"
  by (rule extendsI [OF copy_pair_calls]) (simp_all add: copy_pair_counters)

lemma since_copy_pair:
  "since s (copy_pair cl src k d s) =
     [EvCopy (pair_request src k d) (fst (api_copy_object cl (pair_request src k d) (world s)))]"
  by (rule since_append [OF copy_pair_calls])

lemma extends_copy_to_each: "extends s (copy_to_each cl src k ds s)"
proof (induction ds arbitrary: s)
  case Nil
  show ?case by simp
next
  case (Cons d ds)
  show ?case
    using extends_trans [OF extends_copy_pair Cons.IH] by simp
qed

lemma since_copy_to_each:
  "length (since s (copy_to_each cl src k ds s)) = length ds \<and>
   map fst (attempts (since s (copy_to_each cl src k ds s))) = map (pair_request src k) ds"
proof (induction ds arbitrary: s)
  case Nil
  show ?case by (simp add: since_def)
next
  case (Cons d ds)
  let ?s1 = "copy_pair cl src k d s"
  have "since s (copy_to_each cl src k ds ?s1) =
          since s ?s1 @ since ?s1 (copy_to_each cl src k ds ?s1)"
    by (rule since_trans [OF extends_copy_pair extends_copy_to_each])
  with Cons.IH [of ?s1] show ?case
    by (simp add: since_copy_pair)
qed

lemma extends_copy_all: "extends s (copy_all cl src objs ds s)"
proof (induction objs arbitrary: s)
  case Nil
  show ?case by simp
next
  case (Cons obj objs)
  show ?case
    using extends_trans [OF extends_copy_to_each Cons.IH] by simp
qed

lemma since_copy_all:
  "length (since s (copy_all cl src objs ds s)) = length objs * length ds \<and>
   map fst (attempts (since s (copy_all cl src objs ds s))) =
     concat (map (\<lambda>obj. map (pair_request src (Key obj)) ds) objs)"
proof (induction objs arbitrary: s)
  case Nil
  show ?case by (simp add: since_def)
next
  case (Cons obj objs)
  let ?s1 = "copy_to_each cl src (Key obj) ds s"
  have "since s (copy_all cl src objs ds ?s1) =
          since s ?s1 @ since ?s1 (copy_all cl src objs ds ?s1)"
    by (rule since_trans [OF extends_copy_to_each extends_copy_all])
  with Cons.IH [of ?s1] since_copy_to_each [of s cl src "Key obj" ds] show ?case
    by simp
qed

lemma extends_dispatch: "extends s (copy_objects_to_destinations cl src objs ds s)"
  by (simp add: copy_objects_to_destinations_def Let_def extends_copy_all)

lemma since_dispatch:
  "length (since s (copy_objects_to_destinations cl src objs ds s)) = length objs * length ds \<and>
   map fst (attempts (since s (copy_objects_to_destinations cl src objs ds s))) =
     concat (map (\<lambda>obj. map (pair_request src (Key obj)) ds) objs)"
proof (cases "length objs * length ds = 0")
  case True
  then have "objs = [] \<or> ds = []" by simp
  then have "concat (map (\<lambda>obj. map (pair_request src (Key obj)) ds) objs) = []"
    by auto
  with True show ?thesis
    by (simp add: copy_objects_to_destinations_def since_def del: mult_eq_0_iff)
next
  case False
  then show ?thesis
    using since_copy_all [of s cl src objs ds]
    by (simp add: copy_objects_to_destinations_def)
qed

lemma checks_append [simp]: "checks (t @ u) = checks t @ checks u"
  by (simp add: checks_def)

lemma checks_simps [simp]:
  "checks [] = []"
  "checks (EvHead b r1 # t) = (b, \<not> isl r1) # checks t"
  "checks (EvCopy req r # t) = checks t"
  "checks (EvList b r2 # t) = checks t"
  by (simp_all add: checks_def)

lemma extends_no_attempts:
  "calls s' = calls s @ t \<Longrightarrow> attempts t = [] \<Longrightarrow>
   total_files_copied s' = total_files_copied s \<Longrightarrow>
   total_files_failed s' = total_files_failed s \<Longrightarrow> extends s s'"
  by (rule extendsI [where t = t]) simp_all

lemma validate_calls:
  "calls (snd (validate_bucket_exists cl b s)) =
     calls s @ [EvHead b (fst (api_head_bucket cl b (world s)))]"
  by (simp add: validate_bucket_exists_def head_bucket_def
      split: prod.splits sum.splits exc.splits)

lemma validate_counters:
  "total_files_copied (snd (validate_bucket_exists cl b s)) = total_files_copied s"
  "total_files_failed (snd (validate_bucket_exists cl b s)) = total_files_failed s"
  by (simp_all add: validate_bucket_exists_def head_bucket_def
      split: prod.splits sum.splits exc.splits)

lemma validate_result:
  "fst (validate_bucket_exists cl b s) =
     (case fst (api_head_bucket cl b (world s)) of
        Inr u \<Rightarrow> Inr True
      | Inl (ClientError error_code) \<Rightarrow> Inr False
      | Inl e \<Rightarrow> Inl e)"
  by (simp add: validate_bucket_exists_def head_bucket_def
      split: prod.splits sum.splits exc.splits)

lemma since_validate:
  "since s (snd (validate_bucket_exists cl b s)) =
     [EvHead b (fst (api_head_bucket cl b (world s)))]"
  by (rule since_append [OF validate_calls])

lemma extends_validate: "extends s (snd (validate_bucket_exists cl b s))"
  by (rule extends_no_attempts [OF validate_calls]) (simp_all add: validate_counters)

lemma validate_accepts:
  "fst (validate_bucket_exists cl b s) = Inr ok \<Longrightarrow>
   ok = (\<not> isl (fst (api_head_bucket cl b (world s))))"
  by (simp add: validate_result split: sum.splits exc.splits)

lemma list_calls:
  "calls (snd (list_objects cl b s)) = calls s @ [EvList b (fst (api_paginate cl b (world s)))]"
  by (simp add: list_objects_def paginate_def split: prod.splits sum.splits exc.splits)

lemma list_counters:
  "total_files_copied (snd (list_objects cl b s)) = total_files_copied s"
  "total_files_failed (snd (list_objects cl b s)) = total_files_failed s"
  by (simp_all add: list_objects_def paginate_def split: prod.splits sum.splits exc.splits)

lemma list_result:
  "fst (list_objects cl b s) =
     (case fst (api_paginate cl b (world s)) of
        Inr pages \<Rightarrow> Inr (extend_pages [] pages)
      | Inl (ClientError error_code) \<Rightarrow> Inr []
      | Inl e \<Rightarrow> Inl e)"
  by (simp add: list_objects_def paginate_def split: prod.splits sum.splits exc.splits)

lemma since_list:
  "since s (snd (list_objects cl b s)) = [EvList b (fst (api_paginate cl b (world s)))]"
  by (rule since_append [OF list_calls])

lemma extends_list: "extends s (snd (list_objects cl b s))"
  by (rule extends_no_attempts [OF list_calls]) (simp_all add: list_counters)

lemma validate_destinations_trace:
  "extends s (snd (validate_destinations cl ds acc s)) \<and>
   attempts (since s (snd (validate_destinations cl ds acc s))) = [] \<and>
   length (checks (since s (snd (validate_destinations cl ds acc s)))) =
     length (since s (snd (validate_destinations cl ds acc s))) \<and>
   (\<forall>valid. fst (validate_destinations cl ds acc s) = Inr valid \<longrightarrow>
      map fst (checks (since s (snd (validate_destinations cl ds acc s)))) = ds \<and>
      valid = acc @ map fst (filter snd (checks (since s (snd (validate_destinations cl ds acc s))))))"
proof (induction ds arbitrary: acc s)
  case Nil
  show ?case by (simp add: since_def)
next
  case (Cons d ds)
  obtain r s1 where v: "validate_bucket_exists cl d s = (r, s1)"
    by (cases "validate_bucket_exists cl d s")
  have e1: "extends s s1" and t1: "since s s1 = [EvHead d (fst (api_head_bucket cl d (world s)))]"
    using extends_validate [of s cl d] since_validate [of s cl d] v by simp_all
  show ?case
  proof (cases r)
    case (Inl e)
    with v e1 t1 show ?thesis by simp
  next
    case (Inr ok)
    define acc' where "acc' = (if ok then acc @ [d] else acc)"
    define s' where "s' = snd (validate_destinations cl ds acc' s1)"
    have eq: "validate_destinations cl (d # ds) acc s = validate_destinations cl ds acc' s1"
      using v Inr by (cases ok) (simp_all add: acc'_def)
    have ok: "ok = (\<not> isl (fst (api_head_bucket cl d (world s))))"
      using validate_accepts [of cl d s ok] v Inr by simp
    note ih = Cons.IH [where acc = acc' and s = s1, folded s'_def]
    have e2: "extends s1 s'" using ih by simp
    have st: "since s s' = EvHead d (fst (api_head_bucket cl d (world s))) # since s1 s'"
      using since_trans [OF e1 e2] t1 by simp
    have "extends s s'"
      by (rule extends_trans [OF e1 e2])
    moreover have "attempts (since s s') = []"
      using ih by (simp add: st)
    moreover have "length (checks (since s s')) = length (since s s')"
      using ih by (simp add: st)
    moreover have "\<forall>valid. fst (validate_destinations cl ds acc' s1) = Inr valid \<longrightarrow>
        map fst (checks (since s s')) = d # ds \<and>
        valid = acc @ map fst (filter snd (checks (since s s')))"
      using ih ok by (cases ok) (auto simp add: st acc'_def)
    ultimately show ?thesis
      unfolding eq s'_def [symmetric] by simp
  qed
qed

lemma listed_append [simp]: "listed (t @ u) = listed t @ listed u"
  by (simp add: listed_def)

lemma listed_simps [simp]:
  "listed [] = []"
  "listed (EvList b (Inr pages) # t) = map (Pair b) (extend_pages [] pages) @ listed t"
  "listed (EvList b (Inl e) # t) = listed t"
  "listed (EvHead b r1 # t) = listed t"
  "listed (EvCopy req r # t) = listed t"
  by (simp_all add: listed_def)

lemma length_checks_le: "length (checks t) \<le> length t"
proof (induction t)
  case Nil
  show ?case by simp
next
  case (Cons e t)
  then show ?case by (cases e) simp_all
qed

lemma only_checks:
  "length (checks t) = length t \<Longrightarrow> attempts t = [] \<and> listed t = []"
proof (induction t)
  case Nil
  show ?case by simp
next
  case (Cons e t)
  then show ?case
    using length_checks_le [of t] by (cases e) simp_all
qed

lemma list_listed:
  "listed (since s (snd (list_objects cl b s))) =
     (case fst (list_objects cl b s) of Inr objs \<Rightarrow> map (Pair b) objs | Inl e \<Rightarrow> [])"
  by (simp add: since_list list_result split: sum.splits exc.splits)

lemma extends_validateD: "validate_bucket_exists cl b s = (r, s') \<Longrightarrow> extends s s'"
  using extends_validate [of s cl b] by simp

lemma extends_destinationsD: "validate_destinations cl ds acc s = (r, s') \<Longrightarrow> extends s s'"
  using validate_destinations_trace [of s cl ds acc] by simp

lemma extends_listD: "list_objects cl b s = (r, s') \<Longrightarrow> extends s s'"
  using extends_list [of s cl b] by simp

lemma extends_process: "extends s (snd (process_bucket_config cl cfg s))"
proof (cases "cfg_source_bucket cfg")
  case None
  then show ?thesis by (simp add: process_bucket_config_def)
next
  case src: (Some source_bucket)
  show ?thesis
  proof (cases "cfg_destination_buckets cfg")
    case None
    with src show ?thesis by (simp add: process_bucket_config_def)
  next
    case dst: (Some dest_buckets)
    obtain r1 s1 where v: "validate_bucket_exists cl source_bucket s = (r1, s1)"
      by (cases "validate_bucket_exists cl source_bucket s")
    obtain r2 s2 where vd: "validate_destinations cl dest_buckets [] s1 = (r2, s2)"
      by (cases "validate_destinations cl dest_buckets [] s1")
    obtain r3 s3 where l: "list_objects cl source_bucket s2 = (r3, s3)"
      by (cases "list_objects cl source_bucket s2")
    have e1: "extends s s1" by (rule extends_validateD [OF v])
    have e2: "extends s s2" by (rule extends_trans [OF e1 extends_destinationsD [OF vd]])
    have e3: "extends s s3" by (rule extends_trans [OF e2 extends_listD [OF l]])
    have e4: "extends s (copy_objects_to_destinations cl source_bucket objs valid s3)" for objs valid
      by (rule extends_trans [OF e3 extends_dispatch])
    show ?thesis
      using src dst v vd l e1 e2 e3 e4
      by (simp add: process_bucket_config_def split: sum.splits bool.splits)
  qed
qed

lemma process_all_append:
  "process_all cl (xs @ ys) s = process_all cl ys (process_all cl xs s)"
  by (induction xs arbitrary: s) (simp_all split: prod.splits sum.splits)

lemma process_all_Cons:
  "process_all cl (cfg # rest) s = process_all cl rest (snd (process_bucket_config cl cfg s))"
  by (simp split: prod.splits sum.splits)

lemma extends_process_all: "extends s (process_all cl cfgs s)"
proof (induction cfgs arbitrary: s)
  case Nil
  show ?case by simp
next
  case (Cons cfg cfgs)
  show ?case
    unfolding process_all_Cons
    by (rule extends_trans [OF extends_process Cons.IH])
qed

lemma extends_counters_le: "extends s s' \<Longrightarrow> counters_le s s'"
  by (simp add: extends_def counters_le_def)

lemma extends_total:
  "extends s s' \<Longrightarrow>
   total_files_copied s' + total_files_failed s' =
     total_files_copied s + total_files_failed s + int (length (attempts (since s s')))"
proof -
  assume "extends s s'"
  moreover have "length (filter snd xs) + length (filter (\<lambda>a. \<not> snd a) xs) = length xs"
    for xs :: "(copy_request \<times> bool) list"
    by (rule sum_length_filter_compl)
  from this [of "attempts (since s s')"]
  have "int (length (filter snd (attempts (since s s')))) +
        int (length (filter (\<lambda>a. \<not> snd a) (attempts (since s s')))) =
        int (length (attempts (since s s')))"
    by linarith
  ultimately show ?thesis
    unfolding extends_def by linarith
qed

lemma list_all_filter: "list_all P xs \<longleftrightarrow> filter (\<lambda>a. \<not> P a) xs = []"
  by (induction xs) simp_all

lemma load_config_fresh:
  "load_config cfile s = Inr s1 \<Longrightarrow>
   calls s1 = calls s \<and> total_files_copied s1 = total_files_copied s \<and>
   total_files_failed s1 = total_files_failed s"
  by (auto simp add: load_config_def split: if_splits sum.splits option.splits)

lemma extends_load: "load_config cfile s = Inr s1 \<Longrightarrow> extends s s1"
  by (rule extends_no_attempts [where t = "[]"]) (simp_all add: load_config_fresh)

lemma sync_started:
  "initialize_s3_client boto = Inr cl \<Longrightarrow> load_config cfile s = Inr s1 \<Longrightarrow>
   sync_buckets boto cfile s =
     (if total_files_failed (process_all cl (bucket_configs s1) s1) > 0 then Some 1 else None,
      process_all cl (bucket_configs s1) s1)"
  by (simp add: sync_buckets_def Let_def)

lemma extends_sync: "extends s (snd (sync_buckets boto cfile s))"
proof (cases "initialize_s3_client boto")
  case (Inl n)
  then show ?thesis by (simp add: sync_buckets_def)
next
  case (Inr cl)
  show ?thesis
  proof (cases "load_config cfile s")
    case (Inl n)
    with Inr show ?thesis by (simp add: sync_buckets_def)
  next
    case l: (Inr s1)
    have "extends s (process_all cl (bucket_configs s1) s1)"
      by (rule extends_trans [OF extends_load [OF l] extends_process_all])
    then show ?thesis by (simp add: sync_started [OF Inr l])
  qed
qed

lemma since_validateD:
  "validate_bucket_exists cl b s = (r, s') \<Longrightarrow>
   since s s' = [EvHead b (fst (api_head_bucket cl b (world s)))]"
  using since_validate [of s cl b] by simp

lemma since_listD:
  "list_objects cl b s = (r, s') \<Longrightarrow>
   since s s' = [EvList b (fst (api_paginate cl b (world s)))]"
  using since_list [of s cl b] by simp

lemma validate_trueD:
  "validate_bucket_exists cl b s = (Inr True, s') \<Longrightarrow>
   \<not> isl (fst (api_head_bucket cl b (world s)))"
  using validate_accepts [of cl b s True] by simp

lemma destinations_checks:
  "validate_destinations cl ds [] s = (Inr valid, s') \<Longrightarrow>
   attempts (since s s') = [] \<and> listed (since s s') = [] \<and>
   length (checks (since s s')) = length (since s s') \<and>
   map fst (checks (since s s')) = ds \<and>
   valid = map fst (filter snd (checks (since s s')))"
  using validate_destinations_trace [of s cl ds "[]"]
    only_checks [of "since s s'"] by simp

lemma process_started:
  assumes "cfg_source_bucket cfg = Some source_bucket"
      and "cfg_destination_buckets cfg = Some dest_buckets"
      and "validate_bucket_exists cl source_bucket s = (Inr True, s1)"
      and "validate_destinations cl dest_buckets [] s1 = (Inr valid, s2)"
  shows "process_bucket_config cl cfg s =
     (if valid = [] then (Inr (), s2)
      else case list_objects cl source_bucket s2 of
             (Inl e, s3) \<Rightarrow> (Inl e, s3)
           | (Inr objects, s3) \<Rightarrow>
               if objects = [] then (Inr (), s3)
               else (Inr (), copy_objects_to_destinations cl source_bucket objects valid s3))"
  using assms by (simp add: process_bucket_config_def)

lemma all_refused:
  "filter snd xs = [] \<Longrightarrow> xs = map (\<lambda>d. (d, False)) (map fst xs)"
  by (induction xs) (auto split: if_splits)

lemma extends_unchanged:
  "extends s s' \<Longrightarrow> attempts (since s s') = [] \<Longrightarrow>
   total_files_copied s' = total_files_copied s \<and> total_files_failed s' = total_files_failed s"
  by (simp add: extends_def)


lemma faithful_no_attempts: "attempts t = [] \<Longrightarrow> faithful t"
  by (simp add: faithful_def)

lemma read_from_append: "read_from t req \<or> read_from u req \<Longrightarrow> read_from (t @ u) req"
  by (auto simp add: read_from_def)

lemma faithful_append: "faithful t \<Longrightarrow> faithful u \<Longrightarrow> faithful (t @ u)"
  by (auto simp add: faithful_def intro: read_from_append)

lemma faithful_listed:
  assumes "map fst (attempts u) = concat (map (\<lambda>obj. map (pair_request src (Key obj)) ds) objs)"
      and "attempts t = []"
      and "set (map (Pair src) objs) \<subseteq> set (listed t)"
  shows "faithful (t @ u)"
proof -
  have "req_Key (fst a) = CopySource_Key (fst a) \<and> read_from (t @ u) (fst a)"
    if "a \<in> set (attempts u)" for a
  proof -
    from that have "fst a \<in> set (map fst (attempts u))" by simp
    then obtain obj d where o: "obj \<in> set objs" and r: "fst a = pair_request src (Key obj) d"
      unfolding assms(1) by auto
    from o assms(3) have "(src, obj) \<in> set (listed t)" by auto
    then have "(src, Key obj) \<in> set (map (\<lambda>(b, obj). (b, Key obj)) (listed t))"
      by force
    then have "read_from t (fst a)"
      by (simp add: read_from_def r pair_request_def)
    then show ?thesis
      using read_from_append [of t "fst a" u] by (simp add: r pair_request_def)
  qed
  with assms(2) show ?thesis
    by (simp add: faithful_def)
qed

lemma faithful_process: "faithful (since s (snd (process_bucket_config cl cfg s)))"
proof (cases "cfg_source_bucket cfg")
  case None
  then show ?thesis
    by (simp add: process_bucket_config_def since_def faithful_no_attempts)
next
  case src: (Some source_bucket)
  show ?thesis
  proof (cases "cfg_destination_buckets cfg")
    case None
    with src show ?thesis
      by (simp add: process_bucket_config_def since_def faithful_no_attempts)
  next
    case dst: (Some dest_buckets)
    obtain r1 s1 where v: "validate_bucket_exists cl source_bucket s = (r1, s1)"
      by (cases "validate_bucket_exists cl source_bucket s")
    obtain r2 s2 where vd: "validate_destinations cl dest_buckets [] s1 = (r2, s2)"
      by (cases "validate_destinations cl dest_buckets [] s1")
    obtain r3 s3 where l: "list_objects cl source_bucket s2 = (r3, s3)"
      by (cases "list_objects cl source_bucket s2")
    have e1: "extends s s1" by (rule extends_validateD [OF v])
    have e2: "extends s1 s2" by (rule extends_destinationsD [OF vd])
    have e3: "extends s2 s3" by (rule extends_listD [OF l])
    have e12: "extends s s2" by (rule extends_trans [OF e1 e2])
    have e13: "extends s s3" by (rule extends_trans [OF e12 e3])
    have a1: "attempts (since s s1) = []"
      by (simp add: since_validateD [OF v])
    have "attempts (since s1 s2) = []"
      using validate_destinations_trace [of s1 cl dest_buckets "[]"] vd by simp
    then have a2: "attempts (since s s2) = []"
      using since_trans [OF e1 e2] a1 by simp
    have t3: "since s s3 = since s s2 @ since s2 s3"
      by (rule since_trans [OF e12 e3])
    have a3: "attempts (since s s3) = []"
      using a2 by (simp add: t3 since_listD [OF l])
    have f1: "faithful (since s s1)" by (rule faithful_no_attempts [OF a1])
    have f2: "faithful (since s s2)" by (rule faithful_no_attempts [OF a2])
    have f3: "faithful (since s s3)" by (rule faithful_no_attempts [OF a3])
    have f4: "faithful (since s (copy_objects_to_destinations cl source_bucket objs valid s3))"
      if "r3 = Inr objs" for objs valid
    proof -
      let ?s4 = "copy_objects_to_destinations cl source_bucket objs valid s3"
      have "listed (since s2 s3) = map (Pair source_bucket) objs"
        using list_listed [of s2 cl source_bucket] l that by simp
      then have "set (map (Pair source_bucket) objs) \<subseteq> set (listed (since s s3))"
        by (simp add: t3)
      moreover have "map fst (attempts (since s3 ?s4)) =
          concat (map (\<lambda>obj. map (pair_request source_bucket (Key obj)) valid) objs)"
        using since_dispatch [of s3 cl source_bucket objs valid] by simp
      moreover have "since s ?s4 = since s s3 @ since s3 ?s4"
        by (rule since_trans [OF e13 extends_dispatch])
      ultimately show ?thesis
        using faithful_listed [of "since s3 ?s4" source_bucket valid objs "since s s3"] a3
        by simp
    qed
    show ?thesis
      using src dst v vd l f1 f2 f3 f4
      by (simp add: process_bucket_config_def split: sum.splits bool.splits)
  qed
qed

lemma faithful_process_all: "faithful (since s (process_all cl cfgs s))"
proof (induction cfgs arbitrary: s)
  case Nil
  show ?case by (simp add: since_def faithful_no_attempts)
next
  case (Cons cfg cfgs)
  let ?s1 = "snd (process_bucket_config cl cfg s)"
  have "since s (process_all cl cfgs ?s1) = since s ?s1 @ since ?s1 (process_all cl cfgs ?s1)"
    by (rule since_trans [OF extends_process extends_process_all])
  then show ?case
    unfolding process_all_Cons
    using faithful_append [OF faithful_process Cons.IH] by simp
qed

lemma faithful_sync: "faithful (since s (snd (sync_buckets boto cfile s)))"
proof (cases "initialize_s3_client boto")
  case (Inl n)
  then show ?thesis by (simp add: sync_buckets_def since_def faithful_no_attempts)
next
  case (Inr cl)
  show ?thesis
  proof (cases "load_config cfile s")
    case (Inl n)
    with Inr show ?thesis by (simp add: sync_buckets_def since_def faithful_no_attempts)
  next
    case l: (Inr s1)
    have "since s s1 = []"
      using load_config_fresh [OF l] by (simp add: since_def)
    moreover have "since s (process_all cl (bucket_configs s1) s1) =
        since s s1 @ since s1 (process_all cl (bucket_configs s1) s1)"
      by (rule since_trans [OF extends_load [OF l] extends_process_all])
    ultimately show ?thesis
      using faithful_process_all [of s1 cl "bucket_configs s1"]
      by (simp add: sync_started [OF Inr l])
  qed
qed

section \<open>The claims\<close>

text \<open>
  Claim C1. For any objects and destinations handed to the dispatcher, the copy requests it
  issues are exactly one per (object, destination) pair, all from the given source bucket,
  in nested order: objects outermost in listing order, destinations innermost in the order of
  the list. There are \<open>|objects| * |destinations|\<close> attempts, and the dispatcher makes no
  other call on the client.
\<close>

theorem C1_dispatch_order:
  "map fst (attempts (since s (copy_objects_to_destinations cl source_bucket objects dest_buckets s))) =
     [pair_request source_bucket (Key obj) dest_bucket. obj \<leftarrow> objects, dest_bucket \<leftarrow> dest_buckets]
   \<and> length (attempts (since s (copy_objects_to_destinations cl source_bucket objects dest_buckets s))) =
     length objects * length dest_buckets
   \<and> length (since s (copy_objects_to_destinations cl source_bucket objects dest_buckets s)) =
     length objects * length dest_buckets"
proof -
  let ?s' = "copy_objects_to_destinations cl source_bucket objects dest_buckets s"
  have a: "map fst (attempts (since s ?s')) =
      concat (map (\<lambda>obj. map (pair_request source_bucket (Key obj)) dest_buckets) objects)"
    and b: "length (since s ?s') = length objects * length dest_buckets"
    using since_dispatch [of s cl source_bucket objects dest_buckets] by simp_all
  have "length (attempts (since s ?s')) = length (map fst (attempts (since s ?s')))"
    by simp
  also have "\<dots> = length objects * length dest_buckets"
    unfolding a by (induction objects) simp_all
  finally show ?thesis using a b by simp
qed

text \<open>Objects \<open>x, y\<close> and destinations \<open>D, E\<close>: the four attempts, in order.\<close>

theorem C1_witness:
  "map fst (attempts (since (init 0)
      (copy_objects_to_destinations service ''S'' [obj_x, obj_y] [''D'', ''E''] (init 0)))) =
     [pair_request ''S'' ''x'' ''D'', pair_request ''S'' ''x'' ''E'',
      pair_request ''S'' ''y'' ''D'', pair_request ''S'' ''y'' ''E''] \<and>
   length (attempts (since (init 0)
      (copy_objects_to_destinations service ''S'' [obj_x, obj_y] [''D'', ''E''] (init 0)))) = 4 \<and>
   length (since (init 0)
      (copy_objects_to_destinations service ''S'' [obj_x, obj_y] [''D'', ''E''] (init 0))) = 4"
  using C1_dispatch_order [of "init 0" service "''S''" "[obj_x, obj_y]" "[''D'', ''E'']"]
  by (simp add: obj_x_def obj_y_def)

text \<open>
  Claim C2. At the end of every run the failed counter is the number of copy attempts that
  failed and the copied counter is the number of attempts minus the failures. If at least
  one attempt failed, the exit status is 1. If every attempt succeeded, the exit status is
  0: in every run that made an attempt, and in every run without attempts that got as far
  as the plan (a run that ends in one of the two startup steps makes no attempt at all and
  exits with 1).
\<close>

theorem C2_exit_status_and_counters:
  "(list_all snd (attempts (calls (snd (main boto cfile w)))) \<and>
    (attempts (calls (snd (main boto cfile w))) \<noteq> [] \<or>
     initialize_s3_client boto = Inr cl \<and> load_config cfile (init w) = Inr s1) \<longrightarrow>
      fst (main boto cfile w) = 0) \<and>
   (\<not> list_all snd (attempts (calls (snd (main boto cfile w)))) \<longrightarrow>
      fst (main boto cfile w) = 1) \<and>
   total_files_failed (snd (main boto cfile w)) =
     int (length (filter (\<lambda>a. \<not> snd a) (attempts (calls (snd (main boto cfile w)))))) \<and>
   total_files_copied (snd (main boto cfile w)) =
     int (length (attempts (calls (snd (main boto cfile w))))) -
     total_files_failed (snd (main boto cfile w))"
proof -
  define s2 where "s2 = snd (sync_buckets boto cfile (init w))"
  have e: "extends (init w) s2"
    unfolding s2_def by (rule extends_sync)
  have t: "since (init w) s2 = calls s2"
    by (simp add: since_def init_def)
  have f: "total_files_failed s2 = int (length (filter (\<lambda>a. \<not> snd a) (attempts (calls s2))))"
    using e by (simp add: extends_def t) (simp add: init_def)
  have c: "total_files_copied s2 + total_files_failed s2 = int (length (attempts (calls s2)))"
    using extends_total [OF e] by (simp add: t) (simp add: init_def)
  have g: "total_files_failed s2 > 0 \<longleftrightarrow> \<not> list_all snd (attempts (calls s2))"
    by (simp add: f list_all_filter)
  have m: "snd (main boto cfile w) = s2"
    by (simp add: main_def s2_def split: prod.splits option.splits)
  have one: "fst (main boto cfile w) = 1" if "total_files_failed s2 > 0"
  proof (cases "initialize_s3_client boto")
    case (Inl n)
    then show ?thesis
      by (auto simp add: main_def sync_buckets_def initialize_s3_client_def
          split: sum.splits bool.splits)
  next
    case (Inr cl')
    show ?thesis
    proof (cases "load_config cfile (init w)")
      case (Inl n)
      with Inr show ?thesis
        by (auto simp add: main_def sync_buckets_def load_config_def
            split: sum.splits option.splits if_splits)
    next
      case l: (Inr s1')
      show ?thesis
        using that by (simp add: main_def sync_started [OF Inr l] s2_def)
    qed
  qed
  have started: "fst (main boto cfile w) = 0"
    if "initialize_s3_client boto = Inr cl'" "load_config cfile (init w) = Inr s1'"
      "\<not> total_files_failed s2 > 0" for cl' s1'
    using that by (simp add: main_def sync_started [OF that(1,2)] s2_def)
  have zero: "fst (main boto cfile w) = 0"
    if "attempts (calls s2) \<noteq> []" "\<not> total_files_failed s2 > 0"
  proof (cases "initialize_s3_client boto")
    case (Inl n)
    then have "s2 = init w" by (simp add: s2_def sync_buckets_def)
    with that(1) show ?thesis by (simp add: init_def)
  next
    case (Inr cl')
    show ?thesis
    proof (cases "load_config cfile (init w)")
      case (Inl n)
      with Inr have "s2 = init w" by (simp add: s2_def sync_buckets_def)
      with that(1) show ?thesis by (simp add: init_def)
    next
      case l: (Inr s1')
      show ?thesis by (rule started [OF Inr l that(2)])
    qed
  qed
  show ?thesis
    unfolding m using one zero started f c g by auto
qed

text \<open>
  A run with two attempts that both succeed (status 0), and a run with four attempts of
  which one fails (status 1, counters 3 and 1).
\<close>

theorem C2_witness:
  "initialize_s3_client boto_ok = Inr service \<and>
   load_config (file_of plan_clean) (init 0) = Inr ((init 0)\<lparr>bucket_configs := plan_clean\<rparr>) \<and>
   list_all snd (attempts (calls (snd (main boto_ok (file_of plan_clean) 0)))) \<and>
   fst (main boto_ok (file_of plan_clean) 0) = 0 \<and>
   total_files_failed (snd (main boto_ok (file_of plan_clean) 0)) = 0 \<and>
   total_files_copied (snd (main boto_ok (file_of plan_clean) 0)) = 2 \<and>
   \<not> list_all snd (attempts (calls (snd (main boto_ok (file_of plan_mixed) 0)))) \<and>
   fst (main boto_ok (file_of plan_mixed) 0) = 1 \<and>
   total_files_failed (snd (main boto_ok (file_of plan_mixed) 0)) = 1 \<and>
   total_files_copied (snd (main boto_ok (file_of plan_mixed) 0)) = 3 \<and>
   length (attempts (calls (snd (main boto_ok (file_of plan_mixed) 0)))) = 4"
proof -
  have i: "initialize_s3_client boto_ok = Inr service"
    by (simp add: initialize_s3_client_def boto_ok_def)
  have l: "load_config (file_of plan_clean) (init 0) = Inr ((init 0)\<lparr>bucket_configs := plan_clean\<rparr>)"
    by (simp add: load_config_def file_of_def)
  have a: "list_all snd (attempts (calls (snd (main boto_ok (file_of plan_clean) 0))))"
    by code_simp
  have b: "\<not> list_all snd (attempts (calls (snd (main boto_ok (file_of plan_mixed) 0))))"
    by code_simp
  have z: "fst (main boto_ok (file_of plan_clean) 0) = 0"
    by (rule mp [OF conjunct1 [OF C2_exit_status_and_counters
            [where cl = service and ?s1.0 = "(init 0)\<lparr>bucket_configs := plan_clean\<rparr>"]]])
      (intro conjI disjI2 i l a)
  have o: "fst (main boto_ok (file_of plan_mixed) 0) = 1"
    by (rule mp [OF conjunct1 [OF conjunct2 [OF C2_exit_status_and_counters]]]) (rule b)
  have n: "total_files_failed (snd (main boto_ok (file_of plan_clean) 0)) = 0"
    "total_files_copied (snd (main boto_ok (file_of plan_clean) 0)) = 2"
    "total_files_failed (snd (main boto_ok (file_of plan_mixed) 0)) = 1"
    "total_files_copied (snd (main boto_ok (file_of plan_mixed) 0)) = 3"
    "length (attempts (calls (snd (main boto_ok (file_of plan_mixed) 0)))) = 4"
    by code_simp+
  show ?thesis
    by (intro conjI i l a b z o n)
qed

text \<open>
  Claim C3. Whatever exception the processing of one mapping raises, at whatever place of
  the plan, the loop of the orchestrator goes on with the mappings after it, from the state
  the failed mapping left; the run then ends as any other, with the status the failed
  counter gives.
\<close>

theorem C3_exception_caught:
  assumes "fst (process_bucket_config cl cfg (process_all cl before s)) = Inl e"
  shows "process_all cl (before @ cfg # after) s =
           process_all cl after (snd (process_bucket_config cl cfg (process_all cl before s))) \<and>
         (initialize_s3_client boto = Inr cl \<and> load_config cfile s0 = Inr s \<and>
          bucket_configs s = before @ cfg # after \<longrightarrow>
            sync_buckets boto cfile s0 =
              (if total_files_failed
                    (process_all cl after
                       (snd (process_bucket_config cl cfg (process_all cl before s)))) > 0
               then Some 1 else None,
               process_all cl after
                 (snd (process_bucket_config cl cfg (process_all cl before s)))))"
proof -
  have "process_all cl (before @ cfg # after) s =
          process_all cl after (snd (process_bucket_config cl cfg (process_all cl before s)))"
    by (simp only: process_all_append process_all_Cons)
  then show ?thesis
    by (auto simp add: sync_started)
qed

text \<open>
  The first mapping names a bucket whose check raises a connection error; the second mapping
  is processed all the same, its two objects are copied and the run ends normally.
\<close>

theorem C3_witness:
  "initialize_s3_client boto_ok = Inr service \<and>
   load_config (file_of plan_outage) (init 0) = Inr ((init 0)\<lparr>bucket_configs := plan_outage\<rparr>) \<and>
   fst (process_bucket_config service (entry ''T'' [''D''])
          (process_all service [] ((init 0)\<lparr>bucket_configs := plan_outage\<rparr>))) =
     Inl (OtherException ''EndpointConnectionError'') \<and>
   sync_buckets boto_ok (file_of plan_outage) (init 0) =
     (if total_files_failed
           (process_all service [entry ''S'' [''D'']]
              (snd (process_bucket_config service (entry ''T'' [''D''])
                 (process_all service [] ((init 0)\<lparr>bucket_configs := plan_outage\<rparr>))))) > 0
      then Some 1 else None,
      process_all service [entry ''S'' [''D'']]
        (snd (process_bucket_config service (entry ''T'' [''D''])
           (process_all service [] ((init 0)\<lparr>bucket_configs := plan_outage\<rparr>))))) \<and>
   fst (sync_buckets boto_ok (file_of plan_outage) (init 0)) = None \<and>
   total_files_copied (snd (sync_buckets boto_ok (file_of plan_outage) (init 0))) = 2"
proof -
  have i: "initialize_s3_client boto_ok = Inr service"
    by (simp add: initialize_s3_client_def boto_ok_def)
  have l: "load_config (file_of plan_outage) (init 0) =
      Inr ((init 0)\<lparr>bucket_configs := plan_outage\<rparr>)"
    by (simp add: load_config_def file_of_def)
  have p: "bucket_configs ((init 0 :: nat state)\<lparr>bucket_configs := plan_outage\<rparr>) =
      [] @ entry ''T'' [''D''] # [entry ''S'' [''D'']]"
    by (simp add: plan_outage_def)
  have x: "fst (process_bucket_config service (entry ''T'' [''D''])
          (process_all service [] ((init 0)\<lparr>bucket_configs := plan_outage\<rparr>))) =
     Inl (OtherException ''EndpointConnectionError'')"
    by code_simp
  have e1: "fst (sync_buckets boto_ok (file_of plan_outage) (init 0)) = None"
    by code_simp
  have e2: "total_files_copied (snd (sync_buckets boto_ok (file_of plan_outage) (init 0))) = 2"
    by code_simp
  note t = C3_exception_caught [OF x, of "[entry ''S'' [''D'']]" boto_ok "file_of plan_outage" "init 0"]
  have r: "sync_buckets boto_ok (file_of plan_outage) (init 0) =
     (if total_files_failed
           (process_all service [entry ''S'' [''D'']]
              (snd (process_bucket_config service (entry ''T'' [''D''])
                 (process_all service [] ((init 0)\<lparr>bucket_configs := plan_outage\<rparr>))))) > 0
      then Some 1 else None,
      process_all service [entry ''S'' [''D'']]
        (snd (process_bucket_config service (entry ''T'' [''D''])
           (process_all service [] ((init 0)\<lparr>bucket_configs := plan_outage\<rparr>)))))"
    by (rule mp [OF conjunct2 [OF t]]) (intro conjI i l p)
  show ?thesis
    by (intro conjI i l x r e1 e2)
qed




text \<open>
  Claim C5. When the check of the source bucket does not return \<^verbatim>\<open>True\<close> (it returns
  \<^verbatim>\<open>False\<close>, or raises), the mapping ends there: the only call it made is that check (no
  listing, no copy), both counters are as they were, and the loop goes on with the next
  mapping.
\<close>

theorem C5_invalid_source_skipped:
  assumes "cfg_source_bucket cfg = Some source_bucket"
      and "cfg_destination_buckets cfg = Some dest_buckets"
      and "fst (validate_bucket_exists cl source_bucket s) \<noteq> Inr True"
  shows "process_bucket_config cl cfg s =
           (case fst (validate_bucket_exists cl source_bucket s) of
              Inl e \<Rightarrow> Inl e | Inr ok \<Rightarrow> Inr (),
            snd (validate_bucket_exists cl source_bucket s)) \<and>
         since s (snd (process_bucket_config cl cfg s)) =
           [EvHead source_bucket (fst (api_head_bucket cl source_bucket (world s)))] \<and>
         attempts (since s (snd (process_bucket_config cl cfg s))) = [] \<and>
         total_files_copied (snd (process_bucket_config cl cfg s)) = total_files_copied s \<and>
         total_files_failed (snd (process_bucket_config cl cfg s)) = total_files_failed s \<and>
         process_all cl (cfg # rest) s =
           process_all cl rest (snd (validate_bucket_exists cl source_bucket s))"
proof -
  obtain r1 s1 where v: "validate_bucket_exists cl source_bucket s = (r1, s1)"
    by (cases "validate_bucket_exists cl source_bucket s")
  have p: "process_bucket_config cl cfg s = (case r1 of Inl e \<Rightarrow> Inl e | Inr ok \<Rightarrow> Inr (), s1)"
    using assms v by (simp add: process_bucket_config_def split: sum.splits bool.splits)
  have t: "since s s1 = [EvHead source_bucket (fst (api_head_bucket cl source_bucket (world s)))]"
    by (rule since_validateD [OF v])
  have "total_files_copied s1 = total_files_copied s \<and> total_files_failed s1 = total_files_failed s"
    by (rule extends_unchanged [OF extends_validateD [OF v]]) (simp add: t)
  then show ?thesis
    using p t v by (simp add: process_all_Cons)
qed

text \<open>
  The source \<open>A\<close> is refused: one call, no attempt, and the next mapping copies its two
  objects.
\<close>

theorem C5_witness:
  "fst (validate_bucket_exists service ''A'' (init 0)) = Inr False \<and>
   fst (process_bucket_config service (entry ''A'' [''D'']) (init 0)) = Inr () \<and>
   attempts (since (init 0) (snd (process_bucket_config service (entry ''A'' [''D'']) (init 0)))) = [] \<and>
   process_all service (entry ''A'' [''D''] # [entry ''S'' [''D'']]) (init 0) =
     process_all service [entry ''S'' [''D'']] (snd (validate_bucket_exists service ''A'' (init 0))) \<and>
   calls (snd (process_bucket_config service (entry ''A'' [''D'']) (init 0))) =
     [EvHead ''A'' (Inl (ClientError ''404''))] \<and>
   total_files_copied (process_all service (entry ''A'' [''D''] # [entry ''S'' [''D'']]) (init 0)) = 2"
proof -
  have h1: "cfg_source_bucket (entry ''A'' [''D'']) = Some ''A''"
    and h2: "cfg_destination_buckets (entry ''A'' [''D'']) = Some [''D'']"
    by (simp_all add: entry_def)
  have h3: "fst (validate_bucket_exists service ''A'' (init 0)) = Inr False"
    by code_simp
  have c: "calls (snd (process_bucket_config service (entry ''A'' [''D'']) (init 0))) =
     [EvHead ''A'' (Inl (ClientError ''404''))]"
    by code_simp
  have e: "total_files_copied
      (process_all service (entry ''A'' [''D''] # [entry ''S'' [''D'']]) (init 0)) = 2"
    by code_simp
  have h: "fst (validate_bucket_exists service ''A'' (init 0)) \<noteq> Inr True"
    by (simp add: h3)
  have r: "fst (process_bucket_config service (entry ''A'' [''D'']) (init 0)) = Inr ()"
    by code_simp
  show ?thesis
    using C5_invalid_source_skipped [OF h1 h2 h, of "[entry ''S'' [''D'']]"] h3 c e r by blast
qed

text \<open>
  Claim C6. When the source is accepted and no destination passes its check, the mapping
  ends after the checks: every call it made is a bucket check (the source, then each
  destination, all refused), there is no listing and no copy attempt, both counters are as
  they were, and the loop goes on with the next mapping.
\<close>

theorem C6_no_valid_destination:
  assumes "cfg_source_bucket cfg = Some source_bucket"
      and "cfg_destination_buckets cfg = Some dest_buckets"
      and "validate_bucket_exists cl source_bucket s = (Inr True, s1)"
      and "validate_destinations cl dest_buckets [] s1 = (Inr [], s2)"
  shows "process_bucket_config cl cfg s = (Inr (), s2) \<and>
         length (checks (since s s2)) = length (since s s2) \<and>
         checks (since s s2) = (source_bucket, True) # map (\<lambda>d. (d, False)) dest_buckets \<and>
         attempts (since s s2) = [] \<and>
         total_files_copied s2 = total_files_copied s \<and>
         total_files_failed s2 = total_files_failed s \<and>
         process_all cl (cfg # rest) s = process_all cl rest s2"
proof -
  note d = destinations_checks [OF assms(4)]
  have e1: "extends s s1" by (rule extends_validateD [OF assms(3)])
  have e2: "extends s1 s2" by (rule extends_destinationsD [OF assms(4)])
  have t: "since s s2 =
      EvHead source_bucket (fst (api_head_bucket cl source_bucket (world s))) # since s1 s2"
    using since_trans [OF e1 e2] since_validateD [OF assms(3)] by simp
  have p: "process_bucket_config cl cfg s = (Inr (), s2)"
    by (simp add: process_started [OF assms])
  have "filter snd (checks (since s1 s2)) = []"
    using d by simp
  then have c: "checks (since s1 s2) = map (\<lambda>d. (d, False)) dest_buckets"
    using all_refused [of "checks (since s1 s2)"] d by simp
  have a: "attempts (since s s2) = []"
    using d by (simp add: t)
  have "total_files_copied s2 = total_files_copied s \<and> total_files_failed s2 = total_files_failed s"
    by (rule extends_unchanged [OF extends_trans [OF e1 e2] a])
  then show ?thesis
    using p a c d validate_trueD [OF assms(3)] by (simp add: t process_all_Cons)
qed

text \<open>The only destination, \<open>A\<close>, is refused: two checks, nothing else.\<close>

theorem C6_witness:
  "validate_bucket_exists service ''S'' (init 0) =
     (Inr True, snd (validate_bucket_exists service ''S'' (init 0))) \<and>
   validate_destinations service [''A''] [] (snd (validate_bucket_exists service ''S'' (init 0))) =
     (Inr [], snd (validate_destinations service [''A''] []
                     (snd (validate_bucket_exists service ''S'' (init 0))))) \<and>
   process_bucket_config service (entry ''S'' [''A'']) (init 0) =
     (Inr (), snd (validate_destinations service [''A''] []
                     (snd (validate_bucket_exists service ''S'' (init 0))))) \<and>
   calls (snd (process_bucket_config service (entry ''S'' [''A'']) (init 0))) =
     [EvHead ''S'' (Inr ()), EvHead ''A'' (Inl (ClientError ''404''))] \<and>
   total_files_copied (snd (process_bucket_config service (entry ''S'' [''A'']) (init 0))) = 0 \<and>
   total_files_failed (snd (process_bucket_config service (entry ''S'' [''A'']) (init 0))) = 0"
proof -
  let ?s1 = "snd (validate_bucket_exists service ''S'' (init 0))"
  let ?s2 = "snd (validate_destinations service [''A''] [] ?s1)"
  have f1: "fst (validate_bucket_exists service ''S'' (init 0)) = Inr True"
    by code_simp
  have f2: "fst (validate_destinations service [''A''] [] ?s1) = Inr []"
    by code_simp
  have h1: "cfg_source_bucket (entry ''S'' [''A'']) = Some ''S''"
    and h2: "cfg_destination_buckets (entry ''S'' [''A'']) = Some [''A'']"
    by (simp_all add: entry_def)
  have h3: "validate_bucket_exists service ''S'' (init 0) = (Inr True, ?s1)"
    using f1 by (simp add: prod_eq_iff)
  have h4: "validate_destinations service [''A''] [] ?s1 = (Inr [], ?s2)"
    using f2 by (simp add: prod_eq_iff)
  have c: "calls (snd (process_bucket_config service (entry ''S'' [''A'']) (init 0))) =
     [EvHead ''S'' (Inr ()), EvHead ''A'' (Inl (ClientError ''404''))]"
    by code_simp
  have z: "total_files_copied (init (0::nat)) = 0" "total_files_failed (init (0::nat)) = 0"
    by (simp_all add: init_def)
  show ?thesis
    using C6_no_valid_destination [OF h1 h2 h3 h4] h3 h4 c z by simp
qed

text \<open>
  Claim C7, as the code has it. When the listing of the source fails with a
  \<^verbatim>\<open>ClientError\<close>, the lister returns the empty list and the mapping ends normally; when it
  fails with any other exception, the lister raises that exception and so does the
  processing of the mapping, to the handler of the orchestrator. In both cases the mapping
  makes no copy attempt, leaves both counters as they were, and the loop goes on with the
  next mapping.
\<close>

theorem C7_listing_failure:
  assumes "cfg_source_bucket cfg = Some source_bucket"
      and "cfg_destination_buckets cfg = Some dest_buckets"
      and "validate_bucket_exists cl source_bucket s = (Inr True, s1)"
      and "validate_destinations cl dest_buckets [] s1 = (Inr valid, s2)"
      and "valid \<noteq> []"
      and "fst (api_paginate cl source_bucket (world s2)) = Inl e"
  shows "fst (list_objects cl source_bucket s2) =
           (case e of ClientError error_code \<Rightarrow> Inr [] | KeyError k \<Rightarrow> Inl e
            | OtherException n \<Rightarrow> Inl e) \<and>
         fst (process_bucket_config cl cfg s) =
           (case e of ClientError error_code \<Rightarrow> Inr () | KeyError k \<Rightarrow> Inl e
            | OtherException n \<Rightarrow> Inl e) \<and>
         snd (process_bucket_config cl cfg s) = snd (list_objects cl source_bucket s2) \<and>
         attempts (since s (snd (process_bucket_config cl cfg s))) = [] \<and>
         total_files_copied (snd (process_bucket_config cl cfg s)) = total_files_copied s \<and>
         total_files_failed (snd (process_bucket_config cl cfg s)) = total_files_failed s \<and>
         process_all cl (cfg # rest) s =
           process_all cl rest (snd (list_objects cl source_bucket s2))"
proof -
  obtain r3 s3 where l: "list_objects cl source_bucket s2 = (r3, s3)"
    by (cases "list_objects cl source_bucket s2")
  have r3: "r3 = (case e of ClientError error_code \<Rightarrow> Inr [] | KeyError k \<Rightarrow> Inl e
                  | OtherException n \<Rightarrow> Inl e)"
    using list_result [of cl source_bucket s2] l assms(6) by (simp split: exc.splits)
  have p: "process_bucket_config cl cfg s =
      (case e of ClientError error_code \<Rightarrow> Inr () | KeyError k \<Rightarrow> Inl e
       | OtherException n \<Rightarrow> Inl e, s3)"
    using assms(5) by (simp add: process_started [OF assms(1-4)] l r3 split: exc.splits)
  note d = destinations_checks [OF assms(4)]
  have e1: "extends s s1" by (rule extends_validateD [OF assms(3)])
  have e2: "extends s1 s2" by (rule extends_destinationsD [OF assms(4)])
  have e3: "extends s2 s3" by (rule extends_listD [OF l])
  have e12: "extends s s2" by (rule extends_trans [OF e1 e2])
  have e13: "extends s s3" by (rule extends_trans [OF e12 e3])
  have a: "attempts (since s s3) = []"
    using since_trans [OF e12 e3] since_trans [OF e1 e2] since_validateD [OF assms(3)]
      since_listD [OF l] d by simp
  have "total_files_copied s3 = total_files_copied s \<and> total_files_failed s3 = total_files_failed s"
    by (rule extends_unchanged [OF e13 a])
  then show ?thesis
    using p a l r3 by (simp add: process_all_Cons)
qed

text \<open>
  Listing \<open>L\<close> fails with a \<^verbatim>\<open>ClientError\<close>: the lister returns the empty list and the
  mapping ends normally, without an attempt.
\<close>

theorem C7_witness:
  "validate_bucket_exists service ''L'' (init 0) =
     (Inr True, snd (validate_bucket_exists service ''L'' (init 0))) \<and>
   validate_destinations service [''D''] [] (snd (validate_bucket_exists service ''L'' (init 0))) =
     (Inr [''D''], snd (validate_destinations service [''D''] []
                          (snd (validate_bucket_exists service ''L'' (init 0))))) \<and>
   fst (api_paginate service ''L''
         (world (snd (validate_destinations service [''D''] []
                        (snd (validate_bucket_exists service ''L'' (init 0))))))) =
     Inl (ClientError ''AccessDenied'') \<and>
   attempts (since (init 0) (snd (process_bucket_config service (entry ''L'' [''D'']) (init 0)))) = [] \<and>
   process_all service (entry ''L'' [''D''] # [entry ''S'' [''D'']]) (init 0) =
     process_all service [entry ''S'' [''D'']]
       (snd (list_objects service ''L''
          (snd (validate_destinations service [''D''] []
                  (snd (validate_bucket_exists service ''L'' (init 0))))))) \<and>
   fst (list_objects service ''L''
          (snd (validate_destinations service [''D''] []
                  (snd (validate_bucket_exists service ''L'' (init 0)))))) = Inr [] \<and>
   fst (process_bucket_config service (entry ''L'' [''D'']) (init 0)) = Inr () \<and>
   total_files_copied (process_all service (entry ''L'' [''D''] # [entry ''S'' [''D'']]) (init 0)) = 2"
proof -
  let ?s1 = "snd (validate_bucket_exists service ''L'' (init 0))"
  let ?s2 = "snd (validate_destinations service [''D''] [] ?s1)"
  have f1: "fst (validate_bucket_exists service ''L'' (init 0)) = Inr True"
    by code_simp
  have f2: "fst (validate_destinations service [''D''] [] ?s1) = Inr [''D'']"
    by code_simp
  have h1: "cfg_source_bucket (entry ''L'' [''D'']) = Some ''L''"
    and h2: "cfg_destination_buckets (entry ''L'' [''D'']) = Some [''D'']"
    by (simp_all add: entry_def)
  have h3: "validate_bucket_exists service ''L'' (init 0) = (Inr True, ?s1)"
    using f1 by (simp add: prod_eq_iff)
  have h4: "validate_destinations service [''D''] [] ?s1 = (Inr [''D''], ?s2)"
    using f2 by (simp add: prod_eq_iff)
  have h5: "[''D''] \<noteq> []" by simp
  have h6: "fst (api_paginate service ''L'' (world ?s2)) = Inl (ClientError ''AccessDenied'')"
    by code_simp
  have e1: "fst (list_objects service ''L'' ?s2) = Inr []"
    by code_simp
  have e2: "fst (process_bucket_config service (entry ''L'' [''D'']) (init 0)) = Inr ()"
    by code_simp
  have e3: "total_files_copied
      (process_all service (entry ''L'' [''D''] # [entry ''S'' [''D'']]) (init 0)) = 2"
    by code_simp
  show ?thesis
    using C7_listing_failure [OF h1 h2 h3 h4 h5 h6, of "[entry ''S'' [''D'']]"] h3 h4 h6 e1 e2 e3
    by blast
qed

text \<open>
  Against C7 as the claim has it: listing \<open>N\<close> fails with a read timeout, which is not a
  \<^verbatim>\<open>ClientError\<close>. The lister does not return the empty list, it raises; and the exception
  leaves the processing of the mapping, to the orchestrator.
\<close>

theorem C7_counterexample:
  "fst (api_paginate service ''N'' (world (init 0))) = Inl (OtherException ''ReadTimeoutError'') \<and>
   fst (list_objects service ''N'' (init 0)) \<noteq> Inr [] \<and>
   fst (list_objects service ''N'' (init 0)) = Inl (OtherException ''ReadTimeoutError'') \<and>
   fst (process_bucket_config service (entry ''N'' [''D'']) (init 0)) =
     Inl (OtherException ''ReadTimeoutError'')"
  by code_simp

text \<open>
  Claim C8. One copy attempt makes one call and adds one to exactly one counter: to the
  copied counter when the call returns, to the failed counter when it raises. No method
  lowers a counter: each of them, the loop over the plan up to any point, and the whole run
  leave both counters at least where they were; over the whole run the two counters
  together grow by the number of attempts.
\<close>

theorem C8_counters_monotone:
  "(let r = fst (api_copy_object cl (pair_request src k d) (world s));
        s' = copy_pair cl src k d s
    in calls s' = calls s @ [EvCopy (pair_request src k d) r] \<and>
       total_files_copied s' = total_files_copied s + (if isl r then 0 else 1) \<and>
       total_files_failed s' = total_files_failed s + (if isl r then 1 else 0)) \<and>
   counters_le s (snd (validate_bucket_exists cl b s)) \<and>
   counters_le s (snd (list_objects cl b s)) \<and>
   counters_le s (copy_objects_to_destinations cl src objs ds s) \<and>
   counters_le s (snd (process_bucket_config cl cfg s)) \<and>
   counters_le s (process_all cl before s) \<and>
   counters_le (process_all cl before s) (process_all cl (before @ after) s) \<and>
   counters_le s (snd (sync_buckets boto cfile s)) \<and>
   total_files_copied (snd (sync_buckets boto cfile s)) +
     total_files_failed (snd (sync_buckets boto cfile s)) =
     total_files_copied s + total_files_failed s +
       int (length (attempts (since s (snd (sync_buckets boto cfile s)))))"
proof -
  have "counters_le (process_all cl before s) (process_all cl (before @ after) s)"
    unfolding process_all_append by (rule extends_counters_le [OF extends_process_all])
  then show ?thesis
    by (simp add: Let_def copy_pair_calls copy_pair_counters
        extends_counters_le [OF extends_validate] extends_counters_le [OF extends_list]
        extends_counters_le [OF extends_dispatch] extends_counters_le [OF extends_process]
        extends_counters_le [OF extends_process_all] extends_counters_le [OF extends_sync]
        extends_total [OF extends_sync])
qed

text \<open>The attempt that fails adds one to the failed counter only.\<close>

theorem C8_witness:
  "total_files_copied (copy_pair service ''S'' ''y'' ''E'' (init 0)) = 0 \<and>
   total_files_failed (copy_pair service ''S'' ''y'' ''E'' (init 0)) = 1 \<and>
   total_files_copied (copy_pair service ''S'' ''x'' ''E'' (init 0)) = 1 \<and>
   total_files_failed (copy_pair service ''S'' ''x'' ''E'' (init 0)) = 0"
proof -
  have "isl (fst (api_copy_object service (pair_request ''S'' ''y'' ''E'') (world (init 0))))"
    by code_simp
  moreover have "\<not> isl (fst (api_copy_object service (pair_request ''S'' ''x'' ''E'') (world (init 0))))"
    by code_simp
  moreover have "total_files_copied (init (0::nat)) = 0" "total_files_failed (init (0::nat)) = 0"
    by (simp_all add: init_def)
  ultimately show ?thesis
    using C8_counters_monotone [of service "''S''" "''y''" "''E''" "init 0"]
      C8_counters_monotone [of service "''S''" "''x''" "''E''" "init 0"]
    by (simp add: Let_def)
qed

text \<open>
  Claim C9. A copy request names the same key for the destination as for the source
  (\<^verbatim>\<open>Key=obj_key\<close> and \<^verbatim>\<open>CopySource['Key']=obj_key\<close>). Over a whole run, every copy
  attempt has equal source and destination keys, and that key is the key of an object that
  a listing of the request's source bucket returned in that run: no key is renamed,
  prefixed or otherwise changed on the way.
\<close>

theorem C9_keys_preserved:
  "since s (snd (copy_object cl source_bucket dest_bucket obj_key s)) =
     [EvCopy \<lparr>CopySource_Bucket = source_bucket, CopySource_Key = obj_key,
              req_Bucket = dest_bucket, req_Key = obj_key\<rparr>
        (fst (api_copy_object cl
           \<lparr>CopySource_Bucket = source_bucket, CopySource_Key = obj_key,
            req_Bucket = dest_bucket, req_Key = obj_key\<rparr> (world s)))] \<and>
   faithful (since s (process_all cl cfgs s)) \<and>
   faithful (since s (snd (sync_buckets boto cfile s)))"
proof -
  have "since s (snd (copy_object cl source_bucket dest_bucket obj_key s)) =
     [EvCopy \<lparr>CopySource_Bucket = source_bucket, CopySource_Key = obj_key,
              req_Bucket = dest_bucket, req_Key = obj_key\<rparr>
        (fst (api_copy_object cl
           \<lparr>CopySource_Bucket = source_bucket, CopySource_Key = obj_key,
            req_Bucket = dest_bucket, req_Key = obj_key\<rparr> (world s)))]"
    by (simp add: copy_object_def client_copy_object_def since_def
        split: prod.splits sum.splits exc.splits)
  then show ?thesis
    using faithful_process_all [of s cl cfgs] faithful_sync [of s boto] by simp
qed

text \<open>
  The run over one mapping with two objects and two destinations: the keys of the four
  requests, source and destination side.
\<close>

theorem C9_witness:
  "faithful (since (init 0) (snd (sync_buckets boto_ok (file_of plan_mixed) (init 0)))) \<and>
   map (\<lambda>a. (CopySource_Key (fst a), req_Key (fst a), req_Bucket (fst a)))
     (attempts (since (init 0) (snd (sync_buckets boto_ok (file_of plan_mixed) (init 0))))) =
     [(''x'', ''x'', ''D''), (''x'', ''x'', ''E''), (''y'', ''y'', ''D''), (''y'', ''y'', ''E'')] \<and>
   map (\<lambda>(b, obj). (b, Key obj))
     (listed (since (init 0) (snd (sync_buckets boto_ok (file_of plan_mixed) (init 0))))) =
     [(''S'', ''x''), (''S'', ''y'')]"
proof -
  have "map (\<lambda>a. (CopySource_Key (fst a), req_Key (fst a), req_Bucket (fst a)))
     (attempts (since (init 0) (snd (sync_buckets boto_ok (file_of plan_mixed) (init 0))))) =
     [(''x'', ''x'', ''D''), (''x'', ''x'', ''E''), (''y'', ''y'', ''D''), (''y'', ''y'', ''E'')]"
    by code_simp
  moreover have "map (\<lambda>(b, obj). (b, Key obj))
     (listed (since (init 0) (snd (sync_buckets boto_ok (file_of plan_mixed) (init 0))))) =
     [(''S'', ''x''), (''S'', ''y'')]"
    by code_simp
  ultimately show ?thesis
    using C9_keys_preserved [of "init 0" service "''S''" "''D''" "''x''" plan_mixed boto_ok
        "file_of plan_mixed"]
    by blast
qed

text \<open>
  Claim C10. An entry without the source field or without the destinations field raises a
  \<^verbatim>\<open>KeyError\<close> before any call is made: the state is untouched (no call, both counters as
  they were), the loop goes on with the next entry, and the whole run is the run over the
  plan without that entry.
\<close>

theorem C10_missing_field:
  assumes "cfg_source_bucket cfg = None \<or> cfg_destination_buckets cfg = None"
  shows "process_bucket_config cl cfg s =
           (Inl (KeyError (if cfg_source_bucket cfg = None then ''source_bucket''
                           else ''destination_buckets'')), s) \<and>
         process_all cl (cfg # after) s = process_all cl after s \<and>
         process_all cl (before @ cfg # after) s = process_all cl (before @ after) s \<and>
         (initialize_s3_client boto = Inr cl \<and> load_config cfile s0 = Inr s1 \<and>
          bucket_configs s1 = before @ cfg # after \<longrightarrow>
            sync_buckets boto cfile s0 =
              (if total_files_failed (process_all cl (before @ after) s1) > 0
               then Some 1 else None,
               process_all cl (before @ after) s1))"
proof -
  have p: "process_bucket_config cl cfg s =
      (Inl (KeyError (if cfg_source_bucket cfg = None then ''source_bucket''
                      else ''destination_buckets'')), s)" for s :: "'a state"
    using assms by (auto simp add: process_bucket_config_def split: option.splits)
  have q: "process_all cl (xs @ cfg # after) s = process_all cl (xs @ after) s"
    for xs and s :: "'a state"
    by (simp add: process_all_append process_all_Cons p)
  show ?thesis
    using p [of s] q [of "[]" s] q [of before s] q [of before s1]
    by (auto simp add: sync_started)
qed

text \<open>
  The first entry of the plan has no source field; the second is processed and its two
  objects are copied.
\<close>

theorem C10_witness:
  "process_bucket_config service \<lparr>cfg_source_bucket = None, cfg_destination_buckets = Some [''D'']\<rparr>
      ((init 0)\<lparr>bucket_configs := plan_no_source\<rparr>) =
     (Inl (KeyError ''source_bucket''), (init 0)\<lparr>bucket_configs := plan_no_source\<rparr>) \<and>
   sync_buckets boto_ok (file_of plan_no_source) (init 0) =
     (if total_files_failed (process_all service ([] @ [entry ''S'' [''D'']])
           ((init 0)\<lparr>bucket_configs := plan_no_source\<rparr>)) > 0
      then Some 1 else None,
      process_all service ([] @ [entry ''S'' [''D'']]) ((init 0)\<lparr>bucket_configs := plan_no_source\<rparr>)) \<and>
   fst (sync_buckets boto_ok (file_of plan_no_source) (init 0)) = None \<and>
   total_files_copied (snd (sync_buckets boto_ok (file_of plan_no_source) (init 0))) = 2"
proof -
  let ?cfg = "\<lparr>cfg_source_bucket = None, cfg_destination_buckets = Some [''D'']\<rparr>"
  let ?s1 = "(init (0::nat))\<lparr>bucket_configs := plan_no_source\<rparr>"
  have h: "cfg_source_bucket ?cfg = None \<or> cfg_destination_buckets ?cfg = None"
    by simp
  have i: "initialize_s3_client boto_ok = Inr service"
    by (simp add: initialize_s3_client_def boto_ok_def)
  have l: "load_config (file_of plan_no_source) (init 0) = Inr ?s1"
    by (simp add: load_config_def file_of_def)
  have p: "bucket_configs ?s1 = [] @ ?cfg # [entry ''S'' [''D'']]"
    by (simp add: plan_no_source_def)
  have "fst (sync_buckets boto_ok (file_of plan_no_source) (init 0)) = None"
    by code_simp
  moreover have "total_files_copied (snd (sync_buckets boto_ok (file_of plan_no_source) (init 0))) = 2"
    by code_simp
  ultimately show ?thesis
    using C10_missing_field [OF h, of service ?s1 "[entry ''S'' [''D'']]" "[]" boto_ok
        "file_of plan_no_source" "init 0" ?s1] i l p
    by simp
qed

end
